theory Spec2Isabelle
  imports Main "HOL-Library.Word"
begin

section \<open>Data model of workers/image-parser.js\<close>

text \<open>
  A \<open>Uint8Array\<close> (or the \<open>ArrayBuffer\<close> behind it) is a list of bytes; its
  \<open>length\<close>, \<open>byteLength\<close> and the \<open>byteLength\<close> of the \<open>DataView\<close> built over it
  are all the length of that list. Offsets and the numbers read from the buffer are
  JavaScript numbers holding non-negative integers far below \<open>2^53\<close>, hence \<open>nat\<close>.
\<close>

type_synonym byte = "8 word"
type_synonym buffer = "byte list"

text \<open>The only exception the parser can raise: a \<open>DataView\<close> read outside the view.\<close>

datatype error = RangeError

datatype img_format = PNG | JPEG | UNKNOWN

text \<open>The object literal \<open>{ format, width, height }\<close> returned by a detector.\<close>

record parsed =
  format :: img_format
  width :: nat
  height :: nat

text \<open>
  The object literal \<open>{ format, width, height, size }\<close> returned by the dispatcher;
  \<open>None\<close> is JavaScript's \<open>null\<close>.
\<close>

record inspection =
  res_format :: img_format
  res_width :: "nat option"
  res_height :: "nat option"
  res_size :: nat

subsection \<open>Typed-array indexing and DataView reads\<close>

text \<open>\<open>bytes[i]\<close> on a \<open>Uint8Array\<close>: \<open>undefined\<close> (here \<open>None\<close>) out of range.\<close>

definition index :: "buffer \<Rightarrow> nat \<Rightarrow> nat option" where
  "index bytes i = (if i < length bytes then Some (unat (bytes ! i)) else None)"

text \<open>\<open>view.getUint8(offset)\<close>: raises \<open>RangeError\<close> unless \<open>offset < byteLength\<close>.\<close>

definition getUint8 :: "buffer \<Rightarrow> nat \<Rightarrow> error + nat" where
  "getUint8 view offset =
     (if offset < length view then Inr (unat (view ! offset)) else Inl RangeError)"

text \<open>\<open>view.getUint16(offset, false)\<close>: big-endian, raises unless two bytes are there.\<close>

definition readUint16BE :: "buffer \<Rightarrow> nat \<Rightarrow> error + nat" where
  "readUint16BE view offset =
     (if offset + 2 \<le> length view
      then Inr (256 * unat (view ! offset) + unat (view ! (offset + 1)))
      else Inl RangeError)"

text \<open>\<open>view.getUint32(offset, false)\<close>: big-endian, raises unless four bytes are there.\<close>

definition readUint32BE :: "buffer \<Rightarrow> nat \<Rightarrow> error + nat" where
  "readUint32BE view offset =
     (if offset + 4 \<le> length view
      then Inr (16777216 * unat (view ! offset) + 65536 * unat (view ! (offset + 1))
                + 256 * unat (view ! (offset + 2)) + unat (view ! (offset + 3)))
      else Inl RangeError)"

text \<open>The values the reads return when they are in range, for use in statements.\<close>

definition be16 :: "buffer \<Rightarrow> nat \<Rightarrow> nat" where
  "be16 view offset = 256 * unat (view ! offset) + unat (view ! (offset + 1))"

definition be32 :: "buffer \<Rightarrow> nat \<Rightarrow> nat" where
  "be32 view offset =
     16777216 * unat (view ! offset) + 65536 * unat (view ! (offset + 1))
     + 256 * unat (view ! (offset + 2)) + unat (view ! (offset + 3))"

section \<open>parsePNG\<close>

definition sig :: "nat list" where
  "sig = [137, 80, 78, 71, 13, 10, 26, 10]"

text \<open>
  \<open>for (let i = 0; i < sig.length; i++) if (bytes[i] !== sig[i]) return null;\<close>
  The loop passes exactly when every one of the eight comparisons does.
\<close>

definition sig_matches :: "buffer \<Rightarrow> bool" where
  "sig_matches bytes = list_all (\<lambda>i. index bytes i = Some (sig ! i)) [0..<length sig]"

text \<open>
  A JavaScript string is its sequence of UTF-16 code units. \<open>String.fromCharCode\<close>
  builds the string whose code units are its arguments (each taken modulo \<open>2^16\<close>);
  \<open>IHDR\<close> is the literal \<open>"IHDR"\<close>, the code units of I, H, D, R.
\<close>

type_synonym js_string = "nat list"

definition fromCharCode :: "nat list \<Rightarrow> js_string" where
  "fromCharCode cs = map (\<lambda>c. c mod 65536) cs"

definition IHDR :: js_string where
  "IHDR = [73, 72, 68, 82]"

definition parsePNG :: "buffer \<Rightarrow> error + parsed option" where
  "parsePNG bytes =
     (if length bytes < 24 then Inr None
      else if \<not> sig_matches bytes then Inr None
      else
        let chunkTypeOffset = 12 in
        (case getUint8 bytes chunkTypeOffset of Inl e \<Rightarrow> Inl e | Inr c0 \<Rightarrow>
        (case getUint8 bytes (chunkTypeOffset + 1) of Inl e \<Rightarrow> Inl e | Inr c1 \<Rightarrow>
        (case getUint8 bytes (chunkTypeOffset + 2) of Inl e \<Rightarrow> Inl e | Inr c2 \<Rightarrow>
        (case getUint8 bytes (chunkTypeOffset + 3) of Inl e \<Rightarrow> Inl e | Inr c3 \<Rightarrow>
          if fromCharCode [c0, c1, c2, c3] \<noteq> IHDR then Inr None
          else
            (case readUint32BE bytes 16 of Inl e \<Rightarrow> Inl e | Inr w \<Rightarrow>
            (case readUint32BE bytes 20 of Inl e \<Rightarrow> Inl e | Inr h \<Rightarrow>
               Inr (Some \<lparr>format = PNG, width = w, height = h\<rparr>))))))))"

section \<open>parseJPEG\<close>

definition JPEG_SOF_MARKERS :: "nat set" where
  "JPEG_SOF_MARKERS =
     {0xC0, 0xC1, 0xC2, 0xC3,
      0xC5, 0xC6, 0xC7,
      0xC9, 0xCA, 0xCB,
      0xCD, 0xCE, 0xCF}"

text \<open>
  The inner loop
  \<open>while (marker === 0xFF) { offset++; marker = view.getUint8(offset + 1); }\<close>
  on the pair \<open>(offset, marker)\<close>; the read raises past the end of the view.
\<close>

function skip_padding :: "buffer \<Rightarrow> nat \<Rightarrow> nat \<Rightarrow> error + (nat \<times> nat)" where
  "skip_padding view offset marker =
     (if marker = 0xFF
      then (case getUint8 view (offset + 1 + 1) of
              Inl e \<Rightarrow> Inl e
            | Inr marker' \<Rightarrow> skip_padding view (offset + 1) marker')
      else Inr (offset, marker))"
  by pat_completeness auto
termination
  by (relation "measure (\<lambda>(view, offset, marker). length view - offset)")
     (auto simp: getUint8_def split: if_splits)

declare skip_padding.simps [simp del]

text \<open>
  How one run of the body of \<open>while (offset < view.byteLength)\<close> ends: at
  \<open>continue\<close> or the end of the body with a new offset, at \<open>break\<close>, or at a
  \<open>return\<close>. An exception is the \<open>Inl\<close> of the sum.
\<close>

datatype step = Continue nat | Break | Return "parsed option"

text \<open>
  The second half of the loop body, from \<open>if (marker === 0xD9) break;\<close> to
  \<open>offset += segLen;\<close>, run with the marker that was found and the offset just
  past it (the value of \<open>offset\<close> after \<open>offset += 2\<close>).
\<close>

definition scan_segment :: "buffer \<Rightarrow> nat \<Rightarrow> nat \<Rightarrow> error + step" where
  "scan_segment view offset marker =
     (if marker = 0xD9 then Inr Break
      else if offset + 2 > length view then Inr Break
      else
       (case readUint16BE view offset of Inl e \<Rightarrow> Inl e | Inr segLen \<Rightarrow>
          if segLen < 2 then Inr (Return None)
          else if marker \<in> JPEG_SOF_MARKERS then
            (if offset + 5 \<ge> length view then Inr (Return None)
             else
              (case getUint8 view (offset + 2) of Inl e \<Rightarrow> Inl e | Inr precision \<Rightarrow>
              (case readUint16BE view (offset + 3) of Inl e \<Rightarrow> Inl e | Inr h \<Rightarrow>
              (case readUint16BE view (offset + 5) of Inl e \<Rightarrow> Inl e | Inr w \<Rightarrow>
                 Inr (Return (Some \<lparr>format = JPEG, width = w, height = h\<rparr>))))))
          else Inr (Continue (offset + segLen))))"

text \<open>
  The middle of the loop body, run when the byte at \<open>offset\<close> is \<open>0xFF\<close>:
  \<open>let marker = view.getUint8(offset + 1);\<close>, the padding loop and
  \<open>offset += 2\<close>. It gives the new offset and the marker.
\<close>

definition find_marker :: "buffer \<Rightarrow> nat \<Rightarrow> error + (nat \<times> nat)" where
  "find_marker view offset =
     (case getUint8 view (offset + 1) of Inl e \<Rightarrow> Inl e | Inr marker0 \<Rightarrow>
     (case skip_padding view offset marker0 of Inl e \<Rightarrow> Inl e
      | Inr (offset1, marker) \<Rightarrow> Inr (offset1 + 2, marker)))"

text \<open>
  The whole loop body: the test for the \<open>0xFF\<close> prefix with its \<open>continue\<close>,
  then the marker, then the segment.
\<close>

definition scan_step :: "buffer \<Rightarrow> nat \<Rightarrow> error + step" where
  "scan_step view offset =
     (case getUint8 view offset of Inl e \<Rightarrow> Inl e | Inr b \<Rightarrow>
      if b \<noteq> 0xFF then Inr (Continue (offset + 1))
      else
       (case find_marker view offset of Inl e \<Rightarrow> Inl e
        | Inr (offset2, marker) \<Rightarrow> scan_segment view offset2 marker))"

text \<open>
  The loop \<open>while (offset < view.byteLength) { ... }\<close> followed by
  \<open>return null\<close>. It terminates because a body that continues has moved the
  offset forward.
\<close>

function scan_loop :: "buffer \<Rightarrow> nat \<Rightarrow> error + parsed option" where
  "scan_loop view offset =
     (if offset < length view
      then (case scan_step view offset of
              Inl e \<Rightarrow> Inl e
            | Inr (Continue offset') \<Rightarrow> scan_loop view offset'
            | Inr Break \<Rightarrow> Inr None
            | Inr (Return r) \<Rightarrow> Inr r)
      else Inr None)"
  by pat_completeness auto
termination
proof (relation "measure (\<lambda>(view, offset). length view - offset)")
  show "wf (measure (\<lambda>(view, offset). length view - offset))"
    by simp
next
  fix view :: buffer and offset offset' :: nat and s :: step
  assume guard: "offset < length view"
    and s: "scan_step view offset = Inr s"
    and c: "s = Continue offset'"
  have pad: "offset \<le> o1"
    if "skip_padding view offset m = Inr (o1, m1)" for m o1 m1
    using that
  proof (induction view offset m rule: skip_padding.induct)
    case (1 view offset marker)
    show ?case
    proof (cases "marker = 0xFF")
      case False
      with "1.prems" show ?thesis by (simp add: skip_padding.simps [of view offset marker])
    next
      case True
      then have "skip_padding view offset marker =
          (case getUint8 view (offset + 1 + 1) of
             Inl e \<Rightarrow> Inl e
           | Inr marker' \<Rightarrow> skip_padding view (offset + 1) marker')"
        by (subst skip_padding.simps) simp
      with "1.prems" obtain m' where
        r: "getUint8 view (offset + 1 + 1) = Inr m'"
        and k: "skip_padding view (offset + 1) m' = Inr (o1, m1)"
        by (auto split: sum.splits)
      from "1.IH" [OF True r k] show ?thesis by simp
    qed
  qed
  have seg: "o2 + 2 \<le> o'"
    if "scan_segment view o2 m = Inr (Continue o')" for o2 m o'
    using that
    by (simp add: scan_segment_def readUint16BE_def split: if_splits sum.splits)
  have "offset < offset'"
  proof (cases "getUint8 view offset = Inr 0xFF")
    case False
    with s c guard show ?thesis
      by (simp add: scan_step_def getUint8_def split: if_splits)
  next
    case True
    with s c obtain o2 m1 where
      f: "find_marker view offset = Inr (o2, m1)"
      and g: "scan_segment view o2 m1 = Inr (Continue offset')"
      by (simp add: scan_step_def split: sum.splits prod.splits)
    from f obtain m0 o1 where
      p: "skip_padding view offset m0 = Inr (o1, m1)" and o2: "o2 = o1 + 2"
      by (auto simp: find_marker_def split: sum.splits prod.splits)
    from pad [OF p] seg [OF g] o2 show ?thesis by simp
  qed
  with guard show "((view, offset'), (view, offset)) \<in> measure (\<lambda>(view, offset). length view - offset)"
    by simp
qed

declare scan_loop.simps [simp del]

definition parseJPEG :: "buffer \<Rightarrow> error + parsed option" where
  "parseJPEG bytes =
     (if length bytes < 4 then Inr None
      else
       (case getUint8 bytes 0 of Inl e \<Rightarrow> Inl e | Inr b0 \<Rightarrow>
          if b0 \<noteq> 0xFF then Inr None
          else
           (case getUint8 bytes 1 of Inl e \<Rightarrow> Inl e | Inr b1 \<Rightarrow>
              if b1 \<noteq> 0xD8 then Inr None
              else scan_loop bytes 2)))"

section \<open>inspectImageBuffer\<close>

definition inspectImageBuffer :: "buffer \<Rightarrow> error + inspection" where
  "inspectImageBuffer bytes =
     (let size = length bytes in
      case parsePNG bytes of Inl e \<Rightarrow> Inl e
      | Inr (Some png) \<Rightarrow>
          Inr \<lparr>res_format = PNG, res_width = Some (width png),
               res_height = Some (height png), res_size = size\<rparr>
      | Inr None \<Rightarrow>
         (case parseJPEG bytes of Inl e \<Rightarrow> Inl e
          | Inr (Some jpg) \<Rightarrow>
              Inr \<lparr>res_format = JPEG, res_width = Some (width jpg),
                   res_height = Some (height jpg), res_size = size\<rparr>
          | Inr None \<Rightarrow>
              Inr \<lparr>res_format = UNKNOWN, res_width = None,
                   res_height = None, res_size = size\<rparr>))"

section \<open>Notions used to state properties of the scan\<close>

text \<open>
  The offsets at which the loop of \<open>parseJPEG\<close> tests its condition: 2 at the
  start, and the offset left by every run of the body that continues.
\<close>

inductive scan_reaches :: "buffer \<Rightarrow> nat \<Rightarrow> bool" for view :: buffer where
  start: "scan_reaches view 2"
| continue: "scan_reaches view offset \<Longrightarrow> offset < length view \<Longrightarrow>
     scan_step view offset = Inr (Continue offset') \<Longrightarrow> scan_reaches view offset'"

code_pred scan_reaches .

text \<open>
  The loop with a budget of runs of its body: \<open>None\<close> when the budget is used up
  before the loop has ended.
\<close>

fun scan_fuel :: "nat \<Rightarrow> buffer \<Rightarrow> nat \<Rightarrow> (error + parsed option) option" where
  "scan_fuel n view offset =
     (if offset < length view
      then (case n of
              0 \<Rightarrow> None
            | Suc k \<Rightarrow>
               (case scan_step view offset of
                  Inl e \<Rightarrow> Some (Inl e)
                | Inr (Continue offset') \<Rightarrow> scan_fuel k view offset'
                | Inr Break \<Rightarrow> Some (Inr None)
                | Inr (Return r) \<Rightarrow> Some (Inr r)))
      else Some (Inr None))"

declare scan_fuel.simps [simp del]

text \<open>
  A DHT segment as an encoder writes it: the marker \<open>FF C4\<close>, the big-endian
  length of the rest of the segment (the two length bytes and the payload), and
  the payload.
\<close>

definition dht_segment :: "buffer \<Rightarrow> buffer" where
  "dht_segment payload =
     [0xFF, 0xC4, of_nat ((length payload + 2) div 256), of_nat ((length payload + 2) mod 256)]
     @ payload"

section \<open>Concrete buffers\<close>

text \<open>The PNG scenario: signature, IHDR of length 13, width 256, height 200.\<close>

definition png_example :: buffer where
  "png_example =
     [0x89, 0x50, 0x4E, 0x47, 0x0D, 0x0A, 0x1A, 0x0A,
      0x00, 0x00, 0x00, 0x0D, 0x49, 0x48, 0x44, 0x52,
      0x00, 0x00, 0x01, 0x00, 0x00, 0x00, 0x00, 0xC8,
      0x08, 0x06, 0x00, 0x00, 0x00]"

text \<open>The same buffer with another chunk-length field.\<close>

definition png_example_other_length :: buffer where
  "png_example_other_length =
     [0x89, 0x50, 0x4E, 0x47, 0x0D, 0x0A, 0x1A, 0x0A,
      0xFF, 0xFF, 0xFF, 0xFF, 0x49, 0x48, 0x44, 0x52,
      0x00, 0x00, 0x01, 0x00, 0x00, 0x00, 0x00, 0xC8,
      0x08, 0x06, 0x00, 0x00, 0x00]"

text \<open>The JPEG scenario: SOI, a SOF0 segment of length 11 (100 high, 200 wide), EOI.\<close>

definition jpeg_example :: buffer where
  "jpeg_example =
     [0xFF, 0xD8, 0xFF, 0xC0, 0x00, 0x0B, 0x08, 0x00, 0x64, 0x00, 0xC8,
      0x01, 0x01, 0x11, 0x00, 0xFF, 0xD9]"

text \<open>SOI, one byte, and a last byte \<open>0xFF\<close>.\<close>

definition trailing_ff :: buffer where
  "trailing_ff = [0xFF, 0xD8, 0x00, 0xFF]"

text \<open>The JPEG scenario cut after the first byte of the width.\<close>

definition sof_cut_in_width :: buffer where
  "sof_cut_in_width = [0xFF, 0xD8, 0xFF, 0xC0, 0x00, 0x0B, 0x08, 0x00, 0x64, 0x00]"

text \<open>The JPEG scenario cut after the height.\<close>

definition sof_cut_after_height :: buffer where
  "sof_cut_after_height = [0xFF, 0xD8, 0xFF, 0xC0, 0x00, 0x0B, 0x08, 0x00, 0x64]"

text \<open>A SOF0 segment that declares length 2, followed by the bytes of the scenario.\<close>

definition sof_length_two :: buffer where
  "sof_length_two = [0xFF, 0xD8, 0xFF, 0xC0, 0x00, 0x02, 0x08, 0x00, 0x64, 0x00, 0xC8]"

text \<open>An APP0 segment that declares length 1, followed by a complete SOF0 segment.\<close>

definition app0_length_one :: buffer where
  "app0_length_one =
     [0xFF, 0xD8, 0xFF, 0xE0, 0x00, 0x01,
      0xFF, 0xC0, 0x00, 0x0B, 0x08, 0x00, 0x64, 0x00, 0xC8]"

text \<open>A DHT segment, EOI, and only then a complete SOF0 segment.\<close>

definition eoi_before_sof :: buffer where
  "eoi_before_sof =
     [0xFF, 0xD8, 0xFF, 0xC4, 0x00, 0x04, 0x08, 0x00, 0xFF, 0xD9,
      0xFF, 0xC0, 0x00, 0x0B, 0x08, 0x00, 0x64, 0x00, 0xC8]"

section \<open>Facts about bytes and fixed-offset reads\<close>

lemma unat_byte_lt: "unat (w::byte) < 256"
  using unsigned_less[of w, where 'a=nat] by simp

lemma unat_byte_eq_iff: "n < 256 \<Longrightarrow> (unat (w::byte) = n) = (w = of_nat n)"
  by (auto simp: word_unat_eq_iff unat_of_nat)

lemma unat_byte_mod: "unat (w::byte) mod 65536 = unat w"
  using unat_byte_lt[of w] by simp

lemma take8: 
  assumes "8 \<le> length b" 
  shows "take 8 b = [b!0, b!1, b!2, b!3, b!4, b!5, b!6, b!7]"
proof (rule nth_equalityI)
  show "length (take 8 b) = length [b!0, b!1, b!2, b!3, b!4, b!5, b!6, b!7]"
    using assms by simp
next
  fix i assume "i < length (take 8 b)"
  then have "i \<in> {0,1,2,3,4,5,6,7}" by auto
  then show "take 8 b ! i = [b!0, b!1, b!2, b!3, b!4, b!5, b!6, b!7] ! i"
    by (elim insertE emptyE; simp)
qed

lemma take4_drop12:
  assumes "16 \<le> length b"
  shows "take 4 (drop 12 b) = [b!12, b!13, b!14, b!15]"
proof (rule nth_equalityI)
  show "length (take 4 (drop 12 b)) = length [b!12, b!13, b!14, b!15]"
    using assms by simp
next
  fix i assume "i < length (take 4 (drop 12 b))"
  then have "i \<in> {0,1,2,3}" by auto
  then show "take 4 (drop 12 b) ! i = [b!12, b!13, b!14, b!15] ! i"
    using assms by (elim insertE emptyE; simp)
qed

lemma sig_matches_iff: 
  assumes "24 \<le> length b" 
  shows "sig_matches b \<longleftrightarrow> take 8 b = [0x89,0x50,0x4E,0x47,0x0D,0x0A,0x1A,0x0A]"
proof -
  have len: "length sig = 8" by (simp add: sig_def)
  have up: "[0..<8] = [0,1,2,3,4,5,6,7]" by (simp add: upt_conv_Cons)
  have "sig_matches b = list_all (\<lambda>i. index b i = Some (sig ! i)) [0,1,2,3,4,5,6,7]"
    unfolding sig_matches_def len up ..
  moreover have "b \<noteq> []" using assms by auto
  ultimately show ?thesis using assms
    by (simp add: take8 sig_def index_def unat_byte_eq_iff)
qed

lemma parsePNG_char: "parsePNG b =
  (if 24 \<le> length b \<and> take 8 b = [0x89,0x50,0x4E,0x47,0x0D,0x0A,0x1A,0x0A] \<and> take 4 (drop 12 b) = [0x49,0x48,0x44,0x52]
   then Inr (Some \<lparr>format = PNG, width = be32 b 16, height = be32 b 20\<rparr>) else Inr None)"
proof (cases "24 \<le> length b")
  case False
  then show ?thesis by (simp add: parsePNG_def)
next
  case True
  then show ?thesis
    by (simp add: parsePNG_def sig_matches_iff take4_drop12 getUint8_def fromCharCode_def IHDR_def unat_byte_mod unat_byte_eq_iff readUint32BE_def be32_def del: One_nat_def)
qed

section \<open>Facts about the JPEG scan\<close>

lemma skip_padding_ge:
  "skip_padding view offset m = Inr (o1, m1) \<Longrightarrow> offset \<le> o1"
proof (induction view offset m rule: skip_padding.induct)
  case (1 view offset marker)
  show ?case
  proof (cases "marker = 0xFF")
    case False
    with "1.prems" show ?thesis
      by (simp add: skip_padding.simps [of view offset marker])
  next
    case True
    then have "skip_padding view offset marker =
        (case getUint8 view (offset + 1 + 1) of
           Inl e \<Rightarrow> Inl e
         | Inr marker' \<Rightarrow> skip_padding view (offset + 1) marker')"
      by (subst skip_padding.simps) simp
    with "1.prems" obtain m' where
      r: "getUint8 view (offset + 1 + 1) = Inr m'"
      and k: "skip_padding view (offset + 1) m' = Inr (o1, m1)"
      by (auto split: sum.splits)
    from "1.IH" [OF True r k] show ?thesis by simp
  qed
qed

lemma find_marker_ge:
  assumes "find_marker view offset = Inr (o2, m)"
  shows "offset + 2 \<le> o2"
proof -
  from assms obtain m0 o1 where
    "skip_padding view offset m0 = Inr (o1, m)" and "o2 = o1 + 2"
    by (auto simp: find_marker_def split: sum.splits prod.splits)
  with skip_padding_ge show ?thesis by fastforce
qed

lemma scan_segment_Continue:
  assumes "scan_segment view o2 m = Inr (Continue o')"
  shows "o2 + 2 \<le> o'"
  using assms
  by (simp add: scan_segment_def readUint16BE_def split: if_splits sum.splits)

lemma scan_step_progress:
  assumes "offset < length view" and "scan_step view offset = Inr (Continue offset')"
  shows "if view ! offset \<noteq> 0xFF then offset' = offset + 1 else offset + 4 \<le> offset'"
proof (cases "view ! offset = 0xFF")
  case False
  then have "unat (view ! offset) \<noteq> 0xFF"
    by (simp add: word_unat_eq_iff)
  with assms False show ?thesis
    by (simp add: scan_step_def getUint8_def)
next
  case True
  with assms obtain o2 m where
    f: "find_marker view offset = Inr (o2, m)"
    and g: "scan_segment view o2 m = Inr (Continue offset')"
    by (simp add: scan_step_def getUint8_def split: sum.splits prod.splits)
  from find_marker_ge [OF f] scan_segment_Continue [OF g] True show ?thesis
    by simp
qed

lemma scan_reaches_ge: "scan_reaches view offset \<Longrightarrow> 2 \<le> offset"
proof (induction rule: scan_reaches.induct)
  case start
  show ?case by simp
next
  case (continue offset offset')
  with scan_step_progress [of offset view offset'] show ?case
    by (simp split: if_splits)
qed

lemma scan_reaches_loop:
  "scan_reaches view offset \<Longrightarrow> scan_loop view 2 = scan_loop view offset"
proof (induction rule: scan_reaches.induct)
  case start
  show ?case by simp
next
  case (continue offset offset')
  then show ?case
    by (simp add: scan_loop.simps [of view offset])
qed

lemma parseJPEG_scan:
  assumes "4 \<le> length view" and "take 2 view = [0xFF, 0xD8]"
  shows "parseJPEG view = scan_loop view 2"
proof -
  from assms have "view ! 0 = 0xFF" "view ! 1 = 0xD8"
    by (auto simp: list_eq_iff_nth_eq dest: spec [of _ 0] spec [of _ 1])
  moreover from assms(1) have "view \<noteq> []" by auto
  ultimately show ?thesis using assms(1)
    by (simp add: parseJPEG_def getUint8_def)
qed

lemma scan_at_marker:
  assumes "scan_reaches view offset" and "offset < length view"
    and "view ! offset = 0xFF" and "find_marker view offset = Inr (o2, m)"
  shows "scan_loop view 2 =
     (case scan_segment view o2 m of
        Inl e \<Rightarrow> Inl e
      | Inr (Continue offset') \<Rightarrow> scan_loop view offset'
      | Inr Break \<Rightarrow> Inr None
      | Inr (Return r) \<Rightarrow> Inr r)"
proof -
  from assms(2-4) have "scan_step view offset = scan_segment view o2 m"
    by (simp add: scan_step_def getUint8_def)
  with assms(2) scan_reaches_loop [OF assms(1)] show ?thesis
    by (simp add: scan_loop.simps [of view offset])
qed


lemma scan_segment_sof:
  assumes "m \<in> JPEG_SOF_MARKERS" and "o2 + 7 \<le> length view"
  shows "scan_segment view o2 m =
     Inr (Return (if be16 view o2 < 2 then None
                  else Some \<lparr>format = JPEG, width = be16 view (o2 + 5),
                             height = be16 view (o2 + 3)\<rparr>))"
proof -
  from assms(1) have "m \<noteq> 0xD9"
    by (auto simp: JPEG_SOF_MARKERS_def)
  with assms show ?thesis
    by (simp add: scan_segment_def readUint16BE_def getUint8_def be16_def add.assoc)
qed

lemma parseJPEG_at_sof:
  assumes "take 2 view = [0xFF, 0xD8]"
    and "scan_reaches view offset" and "offset < length view"
    and "view ! offset = 0xFF" and "find_marker view offset = Inr (o2, m)"
    and "m \<in> JPEG_SOF_MARKERS" and "2 \<le> be16 view o2" and "o2 + 7 \<le> length view"
  shows "parseJPEG view =
     Inr (Some \<lparr>format = JPEG, width = be16 view (o2 + 5), height = be16 view (o2 + 3)\<rparr>)"
proof -
  from assms(8) find_marker_ge [OF assms(5)] have "4 \<le> length view"
    by simp
  then have "parseJPEG view = scan_loop view 2"
    using assms(1) by (rule parseJPEG_scan)
  also have "\<dots> = (case scan_segment view o2 m of
        Inl e \<Rightarrow> Inl e
      | Inr (Continue offset') \<Rightarrow> scan_loop view offset'
      | Inr Break \<Rightarrow> Inr None
      | Inr (Return r) \<Rightarrow> Inr r)"
    using assms(2-5) by (rule scan_at_marker)
  also have "\<dots> = Inr (Some \<lparr>format = JPEG, width = be16 view (o2 + 5), height = be16 view (o2 + 3)\<rparr>)"
    using assms(7) by (simp add: scan_segment_sof [OF assms(6,8)])
  finally show ?thesis .
qed

lemma scan_fuel_enough:
  "length view \<le> offset + n \<Longrightarrow> scan_fuel n view offset = Some (scan_loop view offset)"
proof (induction n arbitrary: offset)
  case 0
  then show ?case
    by (simp add: scan_fuel.simps [of 0] scan_loop.simps [of view offset])
next
  case (Suc n)
  show ?case
  proof (cases "offset < length view")
    case False
    then show ?thesis
      by (simp add: scan_fuel.simps [of "Suc n"] scan_loop.simps [of view offset])
  next
    case True
    have "scan_fuel n view offset' = Some (scan_loop view offset')"
      if "scan_step view offset = Inr (Continue offset')" for offset'
    proof -
      from scan_step_progress [OF True that] have "offset < offset'"
        by (simp split: if_splits)
      with Suc.prems show ?thesis
        by (intro Suc.IH) simp
    qed
    with True show ?thesis
      by (simp add: scan_fuel.simps [of "Suc n"] scan_loop.simps [of view offset]
          split: sum.splits step.splits)
  qed
qed

lemma dht_length: "length (dht_segment p) = length p + 4"
  by (simp add: dht_segment_def)

lemma dht_length_field:
  assumes "length p + 2 < 65536"
  shows "256 * unat (of_nat ((length p + 2) div 256) :: byte)
         + unat (of_nat ((length p + 2) mod 256) :: byte) = length p + 2"
proof -
  from assms have "(length p + 2) div 256 < 256" by simp
  then have "unat (of_nat ((length p + 2) div 256) :: byte) = (length p + 2) div 256"
    by (simp add: unat_of_nat)
  moreover have "unat (of_nat ((length p + 2) mod 256) :: byte) = (length p + 2) mod 256"
    by (simp add: unat_of_nat)
  ultimately show ?thesis by simp
qed

lemma dht_step:
  assumes "length p + 2 < 65536"
  shows "scan_step (pre @ dht_segment p @ post) (length pre)
         = Inr (Continue (length pre + length (dht_segment p)))"
proof -
  let ?view = "pre @ dht_segment p @ post"
  have nth: "?view ! length pre = 0xFF" "?view ! (length pre + 1) = 0xC4"
    "?view ! (length pre + 2) = of_nat ((length p + 2) div 256)"
    "?view ! (length pre + 3) = of_nat ((length p + 2) mod 256)"
    by (simp_all add: dht_segment_def nth_append)
  have len: "length ?view = length pre + 4 + length p + length post"
    by (simp add: dht_segment_def)
  have fm: "find_marker ?view (length pre) = Inr (length pre + 2, 0xC4)"
    using nth(2) len
    by (simp add: find_marker_def getUint8_def skip_padding.simps)
  have e: "length pre + 2 + 1 = length pre + 3" by simp
  have "readUint16BE ?view (length pre + 2)
        = Inr (256 * unat (?view ! (length pre + 2)) + unat (?view ! (length pre + 2 + 1)))"
    using len by (simp add: readUint16BE_def)
  then have rd: "readUint16BE ?view (length pre + 2) = Inr (length p + 2)"
    unfolding e nth(3) nth(4) dht_length_field [OF assms] .
  have seg: "scan_segment ?view (length pre + 2) 0xC4
             = Inr (Continue (length pre + 2 + (length p + 2)))"
    using len rd by (simp add: scan_segment_def JPEG_SOF_MARKERS_def)
  show ?thesis
    using nth(1) len fm seg
    by (simp add: scan_step_def getUint8_def dht_length)
qed

lemma eoi_step:
  "scan_step (pre @ [0xFF, 0xD9] @ rest) (length pre) = Inr Break"
proof -
  let ?view = "pre @ [0xFF, 0xD9] @ rest"
  have nth: "?view ! length pre = 0xFF" "?view ! (length pre + 1) = 0xD9"
    by (simp_all add: nth_append)
  have fm: "find_marker ?view (length pre) = Inr (length pre + 2, 0xD9)"
    using nth(2) by (simp add: find_marker_def getUint8_def skip_padding.simps)
  show ?thesis
    using nth(1) fm by (simp add: scan_step_def getUint8_def scan_segment_def)
qed

lemma dht_only_scan:
  assumes "\<forall>p \<in> set ps. length p + 2 < 65536"
  shows "scan_loop (pre @ concat (map dht_segment ps) @ [0xFF, 0xD9] @ rest) (length pre)
         = Inr None"
  using assms
proof (induction ps arbitrary: pre)
  case Nil
  show ?case
    using eoi_step [of pre rest]
    by (simp add: scan_loop.simps [of _ "length pre"])
next
  case (Cons p ps)
  let ?post = "concat (map dht_segment ps) @ [0xFF, 0xD9] @ rest"
  from Cons.prems have p: "length p + 2 < 65536" and ps: "\<forall>q \<in> set ps. length q + 2 < 65536"
    by simp_all
  have "scan_loop (pre @ dht_segment p @ ?post) (length pre)
        = scan_loop (pre @ dht_segment p @ ?post) (length pre + length (dht_segment p))"
    using dht_step [OF p, of pre ?post]
    by (simp add: scan_loop.simps [of _ "length pre"])
  also have "\<dots> = scan_loop ((pre @ dht_segment p) @ ?post) (length (pre @ dht_segment p))"
    by simp
  also have "\<dots> = Inr None"
    by (rule Cons.IH [OF ps])
  finally show ?case by simp
qed

lemma dht_only_unknown:
  assumes "\<forall>p \<in> set ps. length p + 2 < 65536"
  shows "inspectImageBuffer ([0xFF, 0xD8] @ concat (map dht_segment ps) @ [0xFF, 0xD9] @ rest)
         = Inr \<lparr>res_format = UNKNOWN, res_width = None, res_height = None,
                res_size = length ([0xFF, 0xD8] @ concat (map dht_segment ps) @ [0xFF, 0xD9] @ rest)\<rparr>"
proof -
  let ?view = "[0xFF, 0xD8] @ concat (map dht_segment ps) @ [0xFF, 0xD9] @ rest"
  have l2: "length [0xFF, 0xD8 :: byte] = 2" by simp
  have png: "parsePNG ?view = Inr None"
    by (simp add: parsePNG_char)
  have "parseJPEG ?view = scan_loop ?view 2"
    by (rule parseJPEG_scan) simp_all
  also have "\<dots> = Inr None"
    using dht_only_scan [OF assms, of "[0xFF, 0xD8]" rest] unfolding l2 .
  finally show ?thesis
    using png by (simp add: inspectImageBuffer_def)
qed

lemma find_marker_in_view:
  assumes "find_marker view offset = Inr (o2, m)"
  shows "offset + 2 \<le> length view"
  using assms
  by (auto simp: find_marker_def getUint8_def split: sum.splits if_splits)

lemma parseJPEG_at_marker:
  assumes "take 2 view = [0xFF, 0xD8]"
    and "scan_reaches view offset" and "offset < length view"
    and "view ! offset = 0xFF" and "find_marker view offset = Inr (o2, m)"
  shows "parseJPEG view =
     (case scan_segment view o2 m of
        Inl e \<Rightarrow> Inl e
      | Inr (Continue offset') \<Rightarrow> scan_loop view offset'
      | Inr Break \<Rightarrow> Inr None
      | Inr (Return r) \<Rightarrow> Inr r)"
proof -
  from scan_reaches_ge [OF assms(2)] find_marker_in_view [OF assms(5)]
  have "4 \<le> length view" by simp
  then have "parseJPEG view = scan_loop view 2"
    using assms(1) by (rule parseJPEG_scan)
  also note scan_at_marker [OF assms(2-5)]
  finally show ?thesis .
qed

section \<open>Properties of the parser\<close>

text \<open>
  C1. The specification asks that \<open>inspectImageBuffer\<close>, and \<open>parseJPEG\<close> in
  particular, never raise. The code raises \<open>RangeError\<close> on two kinds of input.
  On a buffer that starts with FF D8 and ends with a byte \<open>0xFF\<close> that the scan
  reaches, the read of the marker at \<open>offset + 1\<close> is past the end. On a buffer cut
  between the two bytes of the width of a SOF segment, the guard
  \<open>offset + 5 >= view.byteLength\<close> lets the read of the width at \<open>offset + 5\<close>
  through although its second byte is missing.
\<close>

theorem parseJPEG_raises_RangeError:
  "parseJPEG trailing_ff = Inl RangeError
   \<and> inspectImageBuffer trailing_ff = Inl RangeError
   \<and> parseJPEG sof_cut_in_width = Inl RangeError
   \<and> inspectImageBuffer sof_cut_in_width = Inl RangeError"
  by code_simp

text \<open>
  C2. For every buffer \<open>b\<close>, \<open>parsePNG\<close> returns a dimensions record exactly when
  \<open>b\<close> begins with the eight signature bytes 89 50 4E 47 0D 0A 1A 0A, has at least
  24 bytes, and bytes 12 to 15 are I, H, D, R; the width is then the big-endian
  32-bit number at offset 16 and the height the one at offset 20. In every other
  case it returns \<open>null\<close>, and it never raises. The buffer of the PNG scenario,
  followed by any bytes, gives format png, width 256, height 200.
\<close>

theorem parsePNG_contract:
  "parsePNG b =
     (if take 8 b = [0x89, 0x50, 0x4E, 0x47, 0x0D, 0x0A, 0x1A, 0x0A]
         \<and> 24 \<le> length b
         \<and> take 4 (drop 12 b) = [0x49, 0x48, 0x44, 0x52]
      then Inr (Some \<lparr>format = PNG, width = be32 b 16, height = be32 b 20\<rparr>)
      else Inr None)
   \<and> parsePNG ([0x89, 0x50, 0x4E, 0x47, 0x0D, 0x0A, 0x1A, 0x0A,
                 0x00, 0x00, 0x00, 0x0D, 0x49, 0x48, 0x44, 0x52,
                 0x00, 0x00, 0x01, 0x00, 0x00, 0x00, 0x00, 0xC8] @ rest)
       = Inr (Some \<lparr>format = PNG, width = 256, height = 200\<rparr>)"
proof
  show "parsePNG b =
     (if take 8 b = [0x89, 0x50, 0x4E, 0x47, 0x0D, 0x0A, 0x1A, 0x0A]
         \<and> 24 \<le> length b
         \<and> take 4 (drop 12 b) = [0x49, 0x48, 0x44, 0x52]
      then Inr (Some \<lparr>format = PNG, width = be32 b 16, height = be32 b 20\<rparr>)
      else Inr None)"
    by (simp add: parsePNG_char conj_ac)
next
  show "parsePNG ([0x89, 0x50, 0x4E, 0x47, 0x0D, 0x0A, 0x1A, 0x0A,
                 0x00, 0x00, 0x00, 0x0D, 0x49, 0x48, 0x44, 0x52,
                 0x00, 0x00, 0x01, 0x00, 0x00, 0x00, 0x00, 0xC8] @ rest)
       = Inr (Some \<lparr>format = PNG, width = 256, height = 200\<rparr>)"
    by (simp add: parsePNG_char be32_def)
qed

text \<open>
  C3, as amended. Let the buffer start with FF D8, let the scan reach an offset
  that holds \<open>0xFF\<close>, and let the marker found there be one of the SOF codes, with
  a length field of at least 2. If moreover the buffer holds seven bytes from the
  length field on (length, precision, height, width), then \<open>parseJPEG\<close> returns
  the big-endian number at \<open>offset + 3\<close> as the height and the one at
  \<open>offset + 5\<close> as the width, whatever follows: the first SOF wins. The buffer of
  the JPEG scenario, followed by any bytes, gives format jpeg, width 200,
  height 100.
\<close>

theorem parseJPEG_first_sof:
  assumes "take 2 view = [0xFF, 0xD8]"
    and "scan_reaches view offset" and "offset < length view"
    and "view ! offset = 0xFF" and "find_marker view offset = Inr (o2, marker)"
    and "marker \<in> JPEG_SOF_MARKERS" and "2 \<le> be16 view o2"
    and "o2 + 7 \<le> length view"
  shows "parseJPEG view =
           Inr (Some \<lparr>format = JPEG, width = be16 view (o2 + 5),
                      height = be16 view (o2 + 3)\<rparr>)
         \<and> inspectImageBuffer
             ([0xFF, 0xD8, 0xFF, 0xC0, 0x00, 0x0B, 0x08, 0x00, 0x64, 0x00, 0xC8] @ rest)
           = Inr \<lparr>res_format = JPEG, res_width = Some 200, res_height = Some 100,
                  res_size = 11 + length rest\<rparr>"
proof
  show "parseJPEG view =
           Inr (Some \<lparr>format = JPEG, width = be16 view (o2 + 5),
                      height = be16 view (o2 + 3)\<rparr>)"
    using assms by (rule parseJPEG_at_sof)
next
  let ?b = "[0xFF, 0xD8, 0xFF, 0xC0, 0x00, 0x0B, 0x08, 0x00, 0x64, 0x00, 0xC8] @ rest"
  have png: "parsePNG ?b = Inr None"
    by (simp add: parsePNG_char)
  have "parseJPEG ?b =
      Inr (Some \<lparr>format = JPEG, width = be16 ?b (4 + 5), height = be16 ?b (4 + 3)\<rparr>)"
  proof (rule parseJPEG_at_sof [where offset = 2 and m = "0xC0"])
    show "scan_reaches ?b 2" by (rule scan_reaches.start)
    show "find_marker ?b 2 = Inr (4, 0xC0)"
      by (simp add: find_marker_def getUint8_def skip_padding.simps)
  qed (simp_all add: be16_def JPEG_SOF_MARKERS_def)
  then have "parseJPEG ?b = Inr (Some \<lparr>format = JPEG, width = 200, height = 100\<rparr>)"
    by (simp add: be16_def)
  with png show "inspectImageBuffer ?b
           = Inr \<lparr>res_format = JPEG, res_width = Some 200, res_height = Some 100,
                  res_size = 11 + length rest\<rparr>"
    by (simp add: inspectImageBuffer_def)
qed

theorem parseJPEG_first_sof_witness:
  "parseJPEG jpeg_example = Inr (Some \<lparr>format = JPEG, width = 200, height = 100\<rparr>)"
proof -
  have "find_marker jpeg_example 2 = Inr (4, 0xC0)"
    by (simp add: jpeg_example_def find_marker_def getUint8_def skip_padding.simps)
  from parseJPEG_first_sof [of jpeg_example 2 4 "0xC0", OF _ scan_reaches.start _ _ this]
  show ?thesis
    by (simp add: jpeg_example_def be16_def JPEG_SOF_MARKERS_def)
qed

text \<open>
  Without the seven bytes the statement fails: in the scenario's buffer cut after
  the height, the scan reaches the SOF0 marker, its length field is 11, and
  \<open>parseJPEG\<close> returns \<open>null\<close>.
\<close>

theorem parseJPEG_first_sof_counterexample:
  "take 2 sof_cut_after_height = [0xFF, 0xD8]
   \<and> scan_reaches sof_cut_after_height 2
   \<and> 2 < length sof_cut_after_height
   \<and> sof_cut_after_height ! 2 = 0xFF
   \<and> find_marker sof_cut_after_height 2 = Inr (4, 0xC0)
   \<and> 0xC0 \<in> JPEG_SOF_MARKERS
   \<and> readUint16BE sof_cut_after_height 4 = Inr 11
   \<and> parseJPEG sof_cut_after_height = Inr None"
proof -
  have "parseJPEG sof_cut_after_height = Inr None"
    by code_simp
  then show ?thesis
    by (simp add: scan_reaches.start sof_cut_after_height_def find_marker_def getUint8_def
        skip_padding.simps JPEG_SOF_MARKERS_def readUint16BE_def)
qed

text \<open>
  C4. Whenever \<open>inspectImageBuffer\<close> returns, the \<open>size\<close> of the result is the
  length of the buffer, whatever the format; and two inspections of one buffer
  give one result.
\<close>

theorem inspectImageBuffer_size:
  "(inspectImageBuffer b = Inr r \<longrightarrow> res_size r = length b)
   \<and> (inspectImageBuffer b = r1 \<and> inspectImageBuffer b = r2 \<longrightarrow> r1 = r2)"
  by (auto simp: inspectImageBuffer_def Let_def split: sum.splits option.splits)

theorem inspectImageBuffer_size_witness:
  "inspectImageBuffer jpeg_example
     = Inr \<lparr>res_format = JPEG, res_width = Some 200, res_height = Some 100, res_size = 17\<rparr>
   \<and> length jpeg_example = 17"
proof -
  have e: "inspectImageBuffer jpeg_example
     = Inr \<lparr>res_format = JPEG, res_width = Some 200, res_height = Some 100, res_size = 17\<rparr>"
    by code_simp
  from inspectImageBuffer_size
         [of jpeg_example
             "\<lparr>res_format = JPEG, res_width = Some 200, res_height = Some 100, res_size = 17\<rparr>"
             "inspectImageBuffer jpeg_example" "inspectImageBuffer jpeg_example"] e
  show ?thesis
    by simp
qed

text \<open>
  C5. At a SOF marker the declared segment length is only compared with 2. With a
  declared length from 2 to 6 and seven bytes in the buffer from the length field
  on, \<open>parseJPEG\<close> still returns the numbers at \<open>offset + 3\<close> and \<open>offset + 5\<close>,
  although the segment ends at \<open>offset + segLen\<close>, at or before the last byte
  read, which is at \<open>offset + 6\<close>.
\<close>

theorem parseJPEG_sof_short_declared_length:
  assumes "take 2 view = [0xFF, 0xD8]"
    and "scan_reaches view offset" and "offset < length view"
    and "view ! offset = 0xFF" and "find_marker view offset = Inr (o2, marker)"
    and "marker \<in> JPEG_SOF_MARKERS"
    and "2 \<le> be16 view o2" and "be16 view o2 \<le> 6"
    and "o2 + 7 \<le> length view"
  shows "parseJPEG view =
           Inr (Some \<lparr>format = JPEG, width = be16 view (o2 + 5),
                      height = be16 view (o2 + 3)\<rparr>)
         \<and> o2 + be16 view o2 \<le> o2 + 5 + 1"
proof
  show "parseJPEG view =
           Inr (Some \<lparr>format = JPEG, width = be16 view (o2 + 5),
                      height = be16 view (o2 + 3)\<rparr>)"
    using assms(1-7,9) by (rule parseJPEG_at_sof)
  show "o2 + be16 view o2 \<le> o2 + 5 + 1"
    using assms(8) by simp
qed

theorem parseJPEG_sof_short_declared_length_witness:
  "be16 sof_length_two 4 = 2
   \<and> parseJPEG sof_length_two = Inr (Some \<lparr>format = JPEG, width = 200, height = 100\<rparr>)"
proof -
  have "find_marker sof_length_two 2 = Inr (4, 0xC0)"
    by (simp add: sof_length_two_def find_marker_def getUint8_def skip_padding.simps)
  from parseJPEG_sof_short_declared_length
         [of sof_length_two 2 4 "0xC0", OF _ scan_reaches.start _ _ this]
  show ?thesis
    by (simp add: sof_length_two_def be16_def JPEG_SOF_MARKERS_def)
qed

text \<open>
  C6. When the marker found by the scan is D9, \<open>parseJPEG\<close> returns \<open>null\<close>,
  whatever follows. Hence a buffer made of FF D8, any number of DHT segments,
  FF D9 and any further bytes is classified as unknown.
\<close>

theorem parseJPEG_eoi_no_match:
  "(take 2 view = [0xFF, 0xD8] \<and> scan_reaches view offset \<and> offset < length view
      \<and> view ! offset = 0xFF \<and> find_marker view offset = Inr (o2, 0xD9)
    \<longrightarrow> parseJPEG view = Inr None)
   \<and> ((\<forall>p \<in> set ps. length p + 2 < 65536)
    \<longrightarrow> inspectImageBuffer
          ([0xFF, 0xD8] @ concat (map dht_segment ps) @ [0xFF, 0xD9] @ rest)
        = Inr \<lparr>res_format = UNKNOWN, res_width = None, res_height = None,
               res_size = length ([0xFF, 0xD8] @ concat (map dht_segment ps)
                                  @ [0xFF, 0xD9] @ rest)\<rparr>)"
proof (intro conjI impI)
  assume a: "take 2 view = [0xFF, 0xD8] \<and> scan_reaches view offset \<and> offset < length view
      \<and> view ! offset = 0xFF \<and> find_marker view offset = Inr (o2, 0xD9)"
  then have h: "take 2 view = [0xFF, 0xD8]" "scan_reaches view offset" "offset < length view"
    "view ! offset = 0xFF" "find_marker view offset = Inr (o2, 0xD9)"
    by simp_all
  have "parseJPEG view =
     (case scan_segment view o2 0xD9 of
        Inl e \<Rightarrow> Inl e
      | Inr (Continue offset') \<Rightarrow> scan_loop view offset'
      | Inr Break \<Rightarrow> Inr None
      | Inr (Return r) \<Rightarrow> Inr r)"
    using h by (rule parseJPEG_at_marker)
  then show "parseJPEG view = Inr None"
    by (simp add: scan_segment_def)
next
  assume "\<forall>p \<in> set ps. length p + 2 < 65536"
  then show "inspectImageBuffer
          ([0xFF, 0xD8] @ concat (map dht_segment ps) @ [0xFF, 0xD9] @ rest)
        = Inr \<lparr>res_format = UNKNOWN, res_width = None, res_height = None,
               res_size = length ([0xFF, 0xD8] @ concat (map dht_segment ps)
                                  @ [0xFF, 0xD9] @ rest)\<rparr>"
    by (rule dht_only_unknown)
qed

theorem parseJPEG_eoi_no_match_witness:
  "scan_reaches eoi_before_sof 8
   \<and> parseJPEG eoi_before_sof = Inr None
   \<and> inspectImageBuffer ([0xFF, 0xD8] @ concat (map dht_segment [[0x08, 0x00], []])
                          @ [0xFF, 0xD9] @ [0xFF, 0xC0, 0x00, 0x0B])
     = Inr \<lparr>res_format = UNKNOWN, res_width = None, res_height = None, res_size = 18\<rparr>"
proof -
  have s: "scan_step eoi_before_sof 2 = Inr (Continue 8)"
    by (simp add: eoi_before_sof_def scan_step_def find_marker_def getUint8_def
        skip_padding.simps scan_segment_def readUint16BE_def JPEG_SOF_MARKERS_def)
  have r: "scan_reaches eoi_before_sof 8"
    by (rule scan_reaches.continue [OF scan_reaches.start _ s])
       (simp add: eoi_before_sof_def)
  have f: "find_marker eoi_before_sof 8 = Inr (10, 0xD9)"
    by (simp add: eoi_before_sof_def find_marker_def getUint8_def skip_padding.simps)
  have t: "take 2 eoi_before_sof = [0xFF, 0xD8]" "8 < length eoi_before_sof"
    "eoi_before_sof ! 8 = 0xFF"
    by (simp_all add: eoi_before_sof_def)
  have d: "\<forall>p \<in> set [[0x08, 0x00], [] :: buffer]. length p + 2 < 65536"
    by simp
  from parseJPEG_eoi_no_match
         [of eoi_before_sof 8 10 "[[0x08, 0x00], []]" "[0xFF, 0xC0, 0x00, 0x0B]"]
    r f t d
  show ?thesis
    by (simp add: dht_segment_def)
qed

text \<open>
  C7. When the scan reads the length field of a segment (the marker is not D9 and
  the two bytes are there) and the length is less than 2, \<open>parseJPEG\<close> returns
  \<open>null\<close> for the whole buffer, whatever follows.
\<close>

theorem parseJPEG_short_length_fails:
  assumes "take 2 view = [0xFF, 0xD8]"
    and "scan_reaches view offset" and "offset < length view"
    and "view ! offset = 0xFF" and "find_marker view offset = Inr (o2, marker)"
    and "marker \<noteq> 0xD9"
    and "readUint16BE view o2 = Inr segLen" and "segLen < 2"
  shows "parseJPEG view = Inr None"
proof -
  have "parseJPEG view =
     (case scan_segment view o2 marker of
        Inl e \<Rightarrow> Inl e
      | Inr (Continue offset') \<Rightarrow> scan_loop view offset'
      | Inr Break \<Rightarrow> Inr None
      | Inr (Return r) \<Rightarrow> Inr r)"
    using assms(1-5) by (rule parseJPEG_at_marker)
  with assms(6-8) show ?thesis
    by (simp add: scan_segment_def)
qed

theorem parseJPEG_short_length_fails_witness:
  "readUint16BE app0_length_one 4 = Inr 1 \<and> parseJPEG app0_length_one = Inr None"
proof -
  have f: "find_marker app0_length_one 2 = Inr (4, 0xE0)"
    by (simp add: app0_length_one_def find_marker_def getUint8_def skip_padding.simps)
  have l: "readUint16BE app0_length_one 4 = Inr 1"
    by (simp add: app0_length_one_def readUint16BE_def)
  from parseJPEG_short_length_fails
         [of app0_length_one 2 4 "0xE0" 1, OF _ scan_reaches.start _ _ f _ l] l
  show ?thesis
    by (simp add: app0_length_one_def)
qed

text \<open>
  C8. The claim asks that the scan ends on every buffer, each run of the loop body
  that continues moving the offset forward, and that \<open>parseJPEG\<close> and hence
  \<open>inspectImageBuffer\<close> therefore return a result after one pass. The scan does
  end within \<open>length view - offset\<close> runs of its body (\<open>scan_step_progress\<close>,
  \<open>scan_fuel_enough\<close>), but it need not end by returning. On the buffer
  FF D8 00 FF the first run of the body continues from offset 2 to offset 3, the
  second raises \<open>RangeError\<close> at the read of the marker, the loop has ended within
  its budget of two runs, and neither \<open>parseJPEG\<close> nor \<open>inspectImageBuffer\<close>
  returns a result.
\<close>

theorem jpeg_scan_ends_by_raising:
  "scan_step trailing_ff 2 = Inr (Continue 3)
   \<and> scan_step trailing_ff 3 = Inl RangeError
   \<and> scan_fuel (length trailing_ff - 2) trailing_ff 2 = Some (Inl RangeError)
   \<and> parseJPEG trailing_ff = Inl RangeError
   \<and> inspectImageBuffer trailing_ff = Inl RangeError"
proof -
  have s2: "scan_step trailing_ff 2 = Inr (Continue 3)"
    by (simp add: trailing_ff_def scan_step_def getUint8_def)
  have s3: "scan_step trailing_ff 3 = Inl RangeError"
    by (simp add: trailing_ff_def scan_step_def find_marker_def getUint8_def)
  have l: "scan_loop trailing_ff 2 = Inl RangeError"
    using s2 s3
    by (simp add: scan_loop.simps [of trailing_ff 2] scan_loop.simps [of trailing_ff 3])
       (simp add: trailing_ff_def)
  have f: "scan_fuel (length trailing_ff - 2) trailing_ff 2 = Some (scan_loop trailing_ff 2)"
    by (rule scan_fuel_enough) simp
  have j: "parseJPEG trailing_ff = scan_loop trailing_ff 2"
    by (rule parseJPEG_scan) (simp_all add: trailing_ff_def)
  have p: "parsePNG trailing_ff = Inr None"
    by (simp add: parsePNG_char trailing_ff_def)
  have i: "inspectImageBuffer trailing_ff = Inl RangeError"
    using p j l by (simp add: inspectImageBuffer_def)
  from s2 s3 l f j i show ?thesis
    by simp
qed

text \<open>
  C9. \<open>inspectImageBuffer\<close> asks \<open>parsePNG\<close> first. A PNG match gives format png
  with the PNG dimensions, whatever \<open>parseJPEG\<close> would do. The result of
  \<open>parseJPEG\<close> counts only when \<open>parsePNG\<close> returned \<open>null\<close>, and format
  unknown, with \<open>null\<close> width and height, is returned exactly when both did.
\<close>

theorem inspectImageBuffer_order:
  "(parsePNG b = Inr (Some png)
      \<longrightarrow> inspectImageBuffer b
          = Inr \<lparr>res_format = PNG, res_width = Some (width png),
                 res_height = Some (height png), res_size = length b\<rparr>)
   \<and> (parsePNG b = Inr None \<and> parseJPEG b = Inr (Some jpg)
      \<longrightarrow> inspectImageBuffer b
          = Inr \<lparr>res_format = JPEG, res_width = Some (width jpg),
                 res_height = Some (height jpg), res_size = length b\<rparr>)
   \<and> (parsePNG b = Inr None \<and> parseJPEG b = Inr None
      \<longrightarrow> inspectImageBuffer b
          = Inr \<lparr>res_format = UNKNOWN, res_width = None, res_height = None,
                 res_size = length b\<rparr>)
   \<and> (inspectImageBuffer b = Inr r \<and> res_format r = UNKNOWN
      \<longrightarrow> parsePNG b = Inr None \<and> parseJPEG b = Inr None
          \<and> res_width r = None \<and> res_height r = None)
   \<and> (inspectImageBuffer b = Inr r \<and> res_format r = JPEG \<longrightarrow> parsePNG b = Inr None)"
  by (auto simp: inspectImageBuffer_def Let_def split: sum.splits option.splits)

theorem inspectImageBuffer_order_witness:
  "inspectImageBuffer png_example
     = Inr \<lparr>res_format = PNG, res_width = Some 256, res_height = Some 200, res_size = 29\<rparr>
   \<and> inspectImageBuffer jpeg_example
     = Inr \<lparr>res_format = JPEG, res_width = Some 200, res_height = Some 100, res_size = 17\<rparr>
   \<and> inspectImageBuffer eoi_before_sof
     = Inr \<lparr>res_format = UNKNOWN, res_width = None, res_height = None, res_size = 19\<rparr>
   \<and> parsePNG jpeg_example = Inr None
   \<and> parsePNG eoi_before_sof = Inr None \<and> parseJPEG eoi_before_sof = Inr None"
proof -
  have p: "parsePNG png_example = Inr (Some \<lparr>format = PNG, width = 256, height = 200\<rparr>)"
    by (simp add: parsePNG_char png_example_def be32_def)
  have j: "parsePNG jpeg_example = Inr None"
    "parseJPEG jpeg_example = Inr (Some \<lparr>format = JPEG, width = 200, height = 100\<rparr>)"
    by code_simp+
  have u: "parsePNG eoi_before_sof = Inr None" "parseJPEG eoi_before_sof = Inr None"
    by code_simp+
  have l: "length png_example = 29" "length jpeg_example = 17" "length eoi_before_sof = 19"
    by (simp_all add: png_example_def jpeg_example_def eoi_before_sof_def)
  from inspectImageBuffer_order [of png_example "\<lparr>format = PNG, width = 256, height = 200\<rparr>"]
    inspectImageBuffer_order [of jpeg_example _ "\<lparr>format = JPEG, width = 200, height = 100\<rparr>"]
    inspectImageBuffer_order [of eoi_before_sof]
    inspectImageBuffer_order [of eoi_before_sof _ _
      "\<lparr>res_format = UNKNOWN, res_width = None, res_height = None, res_size = 19\<rparr>"]
    inspectImageBuffer_order [of jpeg_example _ _
      "\<lparr>res_format = JPEG, res_width = Some 200, res_height = Some 100, res_size = 17\<rparr>"]
    p j u l
  show ?thesis
    by simp
qed

text \<open>
  C10. \<open>parsePNG\<close> never looks at the chunk-length field: two buffers of the same
  length, at least 24, that agree on bytes 0 to 7 and on every byte from offset 12
  on (so that they differ at most in bytes 8 to 11) get the same result.
\<close>

theorem parsePNG_ignores_chunk_length:
  assumes "length a = length b" and "24 \<le> length a"
    and "take 8 a = take 8 b" and "drop 12 a = drop 12 b"
  shows "parsePNG a = parsePNG b"
proof -
  have "be32 (drop 12 a) 4 = be32 a 16" "be32 (drop 12 a) 8 = be32 a 20"
       "be32 (drop 12 b) 4 = be32 b 16" "be32 (drop 12 b) 8 = be32 b 20"
    using assms(1,2) by (simp_all add: be32_def)
  with assms(4) have "be32 a 16 = be32 b 16" "be32 a 20 = be32 b 20"
    by simp_all
  with assms show ?thesis
    by (simp add: parsePNG_char)
qed

theorem parsePNG_ignores_chunk_length_witness:
  "png_example \<noteq> png_example_other_length
   \<and> parsePNG png_example = parsePNG png_example_other_length"
proof
  show "png_example \<noteq> png_example_other_length"
    by (simp add: png_example_def png_example_other_length_def)
  show "parsePNG png_example = parsePNG png_example_other_length"
    by (rule parsePNG_ignores_chunk_length)
       (simp_all add: png_example_def png_example_other_length_def)
qed

end
